theory Spec2Isabelle
  imports Main
begin

section \<open>Go library functions used by package lex\<close>

text \<open>
  A Go string is a sequence of bytes, modelled as a \<open>string\<close> (a list of 8-bit \<open>char\<close>).
  Go's \<open>int\<close> and \<open>rune\<close> are modelled by the mathematical integers, without
  wrap-around: the fields of a scanner that is used within the invariant
  \<open>0 \<le> tokenStart \<le> cursor \<le> len(input)\<close> are bounded by the length of the input, and
  the panics of out-of-range slices are kept for the states outside it.
  A slice expression \<open>s[lo:hi]\<close> panics unless \<open>0 \<le> lo \<le> hi \<le> len(s)\<close>; a send on a
  closed channel panics. Panics are values of type \<open>error\<close>.
\<close>

type_synonym rune = int

datatype error =
    SliceBoundsOutOfRange
  | SendOnClosedChannel
  | CloseOfClosedChannel
  | CannotBackupMoreThanOneToken

definition slice :: "string \<Rightarrow> int \<Rightarrow> int \<Rightarrow> error + string" where
  "slice s lo hi =
     (if 0 \<le> lo \<and> lo \<le> hi \<and> hi \<le> int (length s)
      then Inr (take (nat (hi - lo)) (drop (nat lo) s))
      else Inl SliceBoundsOutOfRange)"

definition slice_from :: "string \<Rightarrow> int \<Rightarrow> error + string" where
  "slice_from s lo = slice s lo (int (length s))"

definition byte :: "char \<Rightarrow> int" where
  "byte c = of_char c"

definition RuneError :: rune where
  "RuneError = 0xFFFD"

text \<open>
  \<open>utf8.DecodeRuneInString\<close>: the first rune of \<open>s\<close> and its width in bytes;
  \<open>(RuneError, 0)\<close> on the empty string and \<open>(RuneError, 1)\<close> on an invalid encoding.
  The masks and shifts of the library are written with \<open>mod\<close> and multiplication.
\<close>

fun DecodeRuneInString :: "string \<Rightarrow> rune \<times> int" where
  "DecodeRuneInString [] = (RuneError, 0)"
| "DecodeRuneInString (c0 # cs) =
    (let s0 = byte c0 in
     if s0 < 0x80 then (s0, 1)
     else if s0 < 0xC2 \<or> 0xF4 < s0 then (RuneError, 1)
     else
       let sz = (if s0 < 0xE0 then 2 else if s0 < 0xF0 then 3 else 4) :: int;
           lo = (if s0 = 0xE0 then 0xA0 else if s0 = 0xF0 then 0x90 else 0x80);
           hi = (if s0 = 0xED then 0x9F else if s0 = 0xF4 then 0x8F else 0xBF)
       in if int (length cs) + 1 < sz then (RuneError, 1)
          else (case cs of
             [] \<Rightarrow> (RuneError, 1)
           | c1 # cs1 \<Rightarrow>
              (let s1 = byte c1 in
               if s1 < lo \<or> hi < s1 then (RuneError, 1)
               else if sz \<le> 2 then ((s0 mod 32) * 64 + s1 mod 64, 2)
               else (case cs1 of
                  [] \<Rightarrow> (RuneError, 1)
                | c2 # cs2 \<Rightarrow>
                   (let s2 = byte c2 in
                    if s2 < 0x80 \<or> 0xBF < s2 then (RuneError, 1)
                    else if sz \<le> 3
                      then ((s0 mod 16) * 4096 + (s1 mod 64) * 64 + s2 mod 64, 3)
                    else (case cs2 of
                       [] \<Rightarrow> (RuneError, 1)
                     | c3 # cs3 \<Rightarrow>
                        (let s3 = byte c3 in
                         if s3 < 0x80 \<or> 0xBF < s3 then (RuneError, 1)
                         else ((s0 mod 8) * 262144 + (s1 mod 64) * 4096
                                 + (s2 mod 64) * 64 + s3 mod 64, 4))))))))"

text \<open>\<open>utf8.ValidRune\<close> and the UTF-8 encoding \<open>string(r)\<close> of a valid rune.\<close>

definition ValidRune :: "rune \<Rightarrow> bool" where
  "ValidRune r \<longleftrightarrow> (0 \<le> r \<and> r < 0xD800) \<or> (0xDFFF < r \<and> r \<le> 0x10FFFF)"

definition EncodeRune :: "rune \<Rightarrow> string" where
  "EncodeRune r =
     (if r < 0x80 then [char_of r]
      else if r < 0x800 then [char_of (0xC0 + r div 64), char_of (0x80 + r mod 64)]
      else if r < 0x10000 then
        [char_of (0xE0 + r div 4096), char_of (0x80 + (r div 64) mod 64),
         char_of (0x80 + r mod 64)]
      else
        [char_of (0xF0 + r div 262144), char_of (0x80 + (r div 4096) mod 64),
         char_of (0x80 + (r div 64) mod 64), char_of (0x80 + r mod 64)])"

text \<open>\<open>strings.HasPrefix\<close>, \<open>strings.IndexByte\<close>, \<open>strings.Index\<close> (\<open>-1\<close> when absent).\<close>

definition HasPrefix_str :: "string \<Rightarrow> string \<Rightarrow> bool" where
  "HasPrefix_str s p \<longleftrightarrow> length p \<le> length s \<and> take (length p) s = p"

fun IndexByte_from :: "int \<Rightarrow> string \<Rightarrow> char \<Rightarrow> int" where
  "IndexByte_from i [] c = -1"
| "IndexByte_from i (x # xs) c = (if x = c then i else IndexByte_from (i + 1) xs c)"

definition IndexByte :: "string \<Rightarrow> char \<Rightarrow> int" where
  "IndexByte s c = IndexByte_from 0 s c"

fun Index_from :: "int \<Rightarrow> string \<Rightarrow> string \<Rightarrow> int" where
  "Index_from i [] sub = (if sub = [] then i else -1)"
| "Index_from i (x # xs) sub =
     (if HasPrefix_str (x # xs) sub then i else Index_from (i + 1) xs sub)"

definition Index :: "string \<Rightarrow> string \<Rightarrow> int" where
  "Index s sub = Index_from 0 s sub"

text \<open>
  The loop \<open>for i, r := range s { if r == utf8.RuneError { return i } }; return -1\<close>
  of \<open>strings.IndexRune\<close>: the byte offset of the first rune of \<open>s\<close> that decodes to
  \<open>RuneError\<close>.
\<close>

function IndexRuneError_from :: "int \<Rightarrow> string \<Rightarrow> int" where
  "IndexRuneError_from i s =
     (if s = [] then -1
      else if fst (DecodeRuneInString s) = RuneError then i
      else IndexRuneError_from (i + snd (DecodeRuneInString s))
             (drop (nat (snd (DecodeRuneInString s))) s))"
  by pat_completeness auto
termination
proof (relation "measure (\<lambda>(i, s). length s)")
  show "wf (measure (\<lambda>(i :: int, s :: string). length s))"
    by simp
next
  fix i :: int and s :: string
  assume ne: "s \<noteq> []"
  then obtain c cs where s: "s = c # cs"
    by (cases s) auto
  have "1 \<le> snd (DecodeRuneInString (c # cs))"
    by (simp add: Let_def split: list.split)
  with ne s show "((i + snd (DecodeRuneInString s), drop (nat (snd (DecodeRuneInString s))) s),
                   (i, s)) \<in> measure (\<lambda>(i, s). length s)"
    by simp
qed

text \<open>
  The runes of a string with their widths, in the order in which repeated decoding (as in
  \<open>for _, r := range s\<close>) yields them.
\<close>

function runes :: "string \<Rightarrow> (rune \<times> int) list" where
  "runes s =
     (if s = [] then []
      else DecodeRuneInString s # runes (drop (nat (snd (DecodeRuneInString s))) s))"
  by pat_completeness auto
termination
proof (relation "measure length")
  show "wf (measure (length :: string \<Rightarrow> nat))"
    by simp
next
  fix s :: string
  assume ne: "s \<noteq> []"
  then obtain c cs where s: "s = c # cs"
    by (cases s) auto
  have "1 \<le> snd (DecodeRuneInString (c # cs))"
    by (simp add: Let_def split: list.split)
  with ne s show "(drop (nat (snd (DecodeRuneInString s))) s, s) \<in> measure length"
    by simp
qed

declare runes.simps [simp del]

text \<open>
  \<open>strings.IndexRune\<close>: the byte offset of the first occurrence of the code point \<open>r\<close>
  in \<open>s\<close>, or \<open>-1\<close>. A value that is no valid code point (such as \<open>EOF = -1\<close>) is never
  found.
\<close>

definition IndexRune :: "string \<Rightarrow> rune \<Rightarrow> int" where
  "IndexRune s r =
     (if 0 \<le> r \<and> r < 0x80 then IndexByte s (char_of r)
      else if r = RuneError then IndexRuneError_from 0 s
      else if \<not> ValidRune r then -1
      else Index s (EncodeRune r))"

text \<open>
  \<open>strings.Count(s, "\n")\<close> and \<open>strings.LastIndex(s, "\n")\<close> with a one-byte
  separator: the library dispatches both to their byte versions.
\<close>

definition CountByte :: "string \<Rightarrow> char \<Rightarrow> int" where
  "CountByte s c = int (length (filter (\<lambda>x. x = c) s))"

fun LastIndexByte_from :: "int \<Rightarrow> int \<Rightarrow> string \<Rightarrow> char \<Rightarrow> int" where
  "LastIndexByte_from i found [] c = found"
| "LastIndexByte_from i found (x # xs) c =
     LastIndexByte_from (i + 1) (if x = c then i else found) xs c"

definition LastIndexByte :: "string \<Rightarrow> char \<Rightarrow> int" where
  "LastIndexByte s c = LastIndexByte_from 0 (-1) s c"

definition newline :: char where
  "newline = CHR 0x0A"

section \<open>Data model (lexer.go)\<close>

type_synonym Type = int

definition TypeError :: Type where
  "TypeError = 0"

definition TypeEOF :: Type where
  "TypeEOF = 1"

definition EOF :: rune where
  "EOF = -1"

record Token =
  Type :: Type
  Pos :: int
  Value :: string

text \<open>
  The channel \<open>tokens chan Token\<close>. The scanner only sends and the consumer only
  receives, and neither side reads what the other writes besides the channel, so the
  values each side observes are those of a first-in first-out queue of the tokens sent
  and not yet received, with the flag set by \<open>close\<close>. A receive on an empty open
  channel blocks (\<open>None\<close>); on an empty closed channel it yields the zero token.
\<close>

record Chan =
  queue :: "Token list"
  closed :: bool

record Lexer =
  name :: string
  input :: string
  width :: int
  base :: int
  pos :: int
  lastPos :: int
  tokens :: Chan

definition zeroToken :: Token where
  "zeroToken = \<lparr>Type = 0, Pos = 0, Value = []\<rparr>"

definition make_chan :: Chan where
  "make_chan = \<lparr>queue = [], closed = False\<rparr>"

definition send :: "Chan \<Rightarrow> Token \<Rightarrow> error + Chan" where
  "send c t =
     (if closed c then Inl SendOnClosedChannel else Inr (c\<lparr>queue := queue c @ [t]\<rparr>))"

definition recv :: "Chan \<Rightarrow> (Token \<times> Chan) option" where
  "recv c =
     (case queue c of
        t # ts \<Rightarrow> Some (t, c\<lparr>queue := ts\<rparr>)
      | [] \<Rightarrow> if closed c then Some (zeroToken, c) else None)"

section \<open>The scanner (lexer.go)\<close>

definition New :: "string \<Rightarrow> string \<Rightarrow> Lexer" where
  "New nm inp =
     \<lparr>name = nm, input = inp, width = 0, base = 0, pos = 0, lastPos = 0,
      tokens = make_chan\<rparr>"

definition NextToken :: "Lexer \<Rightarrow> (Token \<times> Lexer) option" where
  "NextToken l =
     (case recv (tokens l) of
        None \<Rightarrow> None
      | Some (t, c) \<Rightarrow> Some (t, l\<lparr>tokens := c, lastPos := Pos t\<rparr>))"

definition LineNumber :: "Lexer \<Rightarrow> error + int" where
  "LineNumber l =
     (case slice (input l) 0 (lastPos l) of
        Inl e \<Rightarrow> Inl e
      | Inr code \<Rightarrow> Inr (1 + CountByte code newline))"

definition ColumnNumber :: "Lexer \<Rightarrow> error + int" where
  "ColumnNumber l =
     (case slice (input l) 0 (lastPos l) of
        Inl e \<Rightarrow> Inl e
      | Inr code \<Rightarrow>
          (let i = LastIndexByte code newline in
           if i \<ge> 0 then Inr (lastPos l - i) else Inr (1 + int (length code))))"

definition Name :: "Lexer \<Rightarrow> string" where
  "Name l = name l"



definition Inc :: "int \<Rightarrow> Lexer \<Rightarrow> Lexer" where
  "Inc n l = l\<lparr>pos := pos l + n\<rparr>"

definition Dec :: "int \<Rightarrow> Lexer \<Rightarrow> Lexer" where
  "Dec n l = l\<lparr>pos := pos l - n\<rparr>"

definition Input :: "int \<Rightarrow> Lexer \<Rightarrow> error + string" where
  "Input n l = slice_from (input l) (pos l + n)"

definition Next :: "Lexer \<Rightarrow> error + rune \<times> Lexer" where
  "Next l =
     (if pos l \<ge> int (length (input l)) then Inr (EOF, l\<lparr>width := 0\<rparr>)
      else (case slice_from (input l) (pos l) of
              Inl e \<Rightarrow> Inl e
            | Inr rest \<Rightarrow>
                (let (r, w) = DecodeRuneInString rest
                 in Inr (r, l\<lparr>width := w, pos := pos l + w\<rparr>))))"

definition Backup :: "Lexer \<Rightarrow> Lexer" where
  "Backup l = l\<lparr>pos := pos l - width l\<rparr>"

definition Peek :: "Lexer \<Rightarrow> error + rune \<times> Lexer" where
  "Peek l =
     (case Next l of
        Inl e \<Rightarrow> Inl e
      | Inr (r, l') \<Rightarrow> Inr (r, Backup l'))"

definition Emit :: "Type \<Rightarrow> Lexer \<Rightarrow> error + Lexer" where
  "Emit t l =
     (case slice (input l) (base l) (pos l) of
        Inl e \<Rightarrow> Inl e
      | Inr v \<Rightarrow>
          (case send (tokens l) \<lparr>Type = t, Pos = base l, Value = v\<rparr> of
             Inl e \<Rightarrow> Inl e
           | Inr c \<Rightarrow> Inr (l\<lparr>tokens := c, base := pos l\<rparr>)))"

definition Ignore :: "Lexer \<Rightarrow> Lexer" where
  "Ignore l = l\<lparr>base := pos l\<rparr>"

definition HasPrefix :: "string \<Rightarrow> Lexer \<Rightarrow> error + bool" where
  "HasPrefix s l =
     (case slice_from (input l) (pos l) of
        Inl e \<Rightarrow> Inl e
      | Inr rest \<Rightarrow> Inr (HasPrefix_str rest s))"

definition HasPrefixAfter :: "int \<Rightarrow> string \<Rightarrow> Lexer \<Rightarrow> error + bool" where
  "HasPrefixAfter after s l =
     (case slice_from (input l) (pos l + after) of
        Inl e \<Rightarrow> Inl e
      | Inr rest \<Rightarrow> Inr (HasPrefix_str rest s))"

definition Consume :: "string \<Rightarrow> Lexer \<Rightarrow> error + bool \<times> Lexer" where
  "Consume s l =
     (case HasPrefix s l of
        Inl e \<Rightarrow> Inl e
      | Inr ok \<Rightarrow> Inr (ok, if ok then l\<lparr>pos := pos l + int (length s)\<rparr> else l))"

definition Accept :: "string \<Rightarrow> Lexer \<Rightarrow> error + bool \<times> Lexer" where
  "Accept valid l =
     (case Next l of
        Inl e \<Rightarrow> Inl e
      | Inr (r, l') \<Rightarrow>
          if IndexRune valid r \<ge> 0 then Inr (True, l') else Inr (False, Backup l'))"

definition AcceptFunc :: "(rune \<Rightarrow> bool) \<Rightarrow> Lexer \<Rightarrow> error + bool \<times> Lexer" where
  "AcceptFunc f l =
     (case Next l of
        Inl e \<Rightarrow> Inl e
      | Inr (r, l') \<Rightarrow> if f r then Inr (True, l') else Inr (False, Backup l'))"

definition AcceptBut :: "string \<Rightarrow> Lexer \<Rightarrow> error + bool \<times> Lexer" where
  "AcceptBut invalid l =
     (case Next l of
        Inl e \<Rightarrow> Inl e
      | Inr (r, l') \<Rightarrow>
          if IndexRune invalid r < 0 then Inr (True, l') else Inr (False, Backup l'))"

text \<open>
  The three \<open>for\<close> loops. Each may run forever (\<open>None\<close>): the loop of
  \<open>AcceptFuncRun\<close> when \<open>f\<close> holds of \<open>EOF\<close>, the loop of \<open>AcceptButRun\<close> at the end
  of the input. The first argument after the set is the counter \<open>n\<close>; the result is the
  state at loop exit, before the final \<open>Backup\<close>.
\<close>

partial_function (option) AcceptRun_loop ::
  "string \<Rightarrow> int \<Rightarrow> Lexer \<Rightarrow> (error + int \<times> Lexer) option" where
  "AcceptRun_loop valid n l =
     (case Next l of
        Inl e \<Rightarrow> Some (Inl e)
      | Inr (r, l') \<Rightarrow>
          if IndexRune valid r \<ge> 0 then AcceptRun_loop valid (n + width l') l'
          else Some (Inr (n, l')))"

declare AcceptRun_loop.simps [code]

partial_function (option) AcceptFuncRun_loop ::
  "(rune \<Rightarrow> bool) \<Rightarrow> int \<Rightarrow> Lexer \<Rightarrow> (error + int \<times> Lexer) option" where
  "AcceptFuncRun_loop f n l =
     (case Next l of
        Inl e \<Rightarrow> Some (Inl e)
      | Inr (r, l') \<Rightarrow>
          if f r then AcceptFuncRun_loop f (n + width l') l'
          else Some (Inr (n, l')))"

declare AcceptFuncRun_loop.simps [code]

partial_function (option) AcceptButRun_loop ::
  "string \<Rightarrow> int \<Rightarrow> Lexer \<Rightarrow> (error + int \<times> Lexer) option" where
  "AcceptButRun_loop invalid n l =
     (case Next l of
        Inl e \<Rightarrow> Some (Inl e)
      | Inr (r, l') \<Rightarrow>
          if IndexRune invalid r < 0 then AcceptButRun_loop invalid (n + width l') l'
          else Some (Inr (n, l')))"

declare AcceptButRun_loop.simps [code]

definition after_loop :: "(error + int \<times> Lexer) option \<Rightarrow> (error + int \<times> Lexer) option" where
  "after_loop res =
     (case res of
        None \<Rightarrow> None
      | Some (Inl e) \<Rightarrow> Some (Inl e)
      | Some (Inr (n, l')) \<Rightarrow> Some (Inr (n, Backup l')))"

definition AcceptRun :: "string \<Rightarrow> Lexer \<Rightarrow> (error + int \<times> Lexer) option" where
  "AcceptRun valid l = after_loop (AcceptRun_loop valid 0 l)"

definition AcceptFuncRun :: "(rune \<Rightarrow> bool) \<Rightarrow> Lexer \<Rightarrow> (error + int \<times> Lexer) option" where
  "AcceptFuncRun f l = after_loop (AcceptFuncRun_loop f 0 l)"

definition AcceptButRun :: "string \<Rightarrow> Lexer \<Rightarrow> (error + int \<times> Lexer) option" where
  "AcceptButRun invalid l = after_loop (AcceptButRun_loop invalid 0 l)"

text \<open>
  \<open>Errorf\<close> sends one error token carrying the formatted message (here: the message
  itself) and returns the nil state function.
\<close>

definition Errorf :: "string \<Rightarrow> Lexer \<Rightarrow> error + Lexer" where
  "Errorf msg l =
     (case send (tokens l) \<lparr>Type = TypeError, Pos = base l, Value = msg\<rparr> of
        Inl e \<Rightarrow> Inl e
      | Inr c \<Rightarrow> Inr (l\<lparr>tokens := c\<rparr>))"

section \<open>The lookahead reader (reader.go)\<close>

record Reader =
  lex :: Lexer
  buf :: "Token option"

definition NewReader :: "Lexer \<Rightarrow> Reader" where
  "NewReader l = \<lparr>lex = l, buf = None\<rparr>"

definition Reader_Peek :: "Reader \<Rightarrow> (Token \<times> Reader) option" where
  "Reader_Peek r =
     (case buf r of
        None \<Rightarrow>
          (case NextToken (lex r) of
             None \<Rightarrow> None
           | Some (t, l') \<Rightarrow> Some (t, r\<lparr>lex := l', buf := Some t\<rparr>))
      | Some t \<Rightarrow> Some (t, r))"

definition Reader_Next :: "Reader \<Rightarrow> (Token \<times> Reader) option" where
  "Reader_Next r =
     (case buf r of
        Some t \<Rightarrow> Some (t, r\<lparr>buf := None\<rparr>)
      | None \<Rightarrow>
          (case NextToken (lex r) of
             None \<Rightarrow> None
           | Some (t, l') \<Rightarrow> Some (t, r\<lparr>lex := l'\<rparr>)))"

definition Reader_Backup :: "Token \<Rightarrow> Reader \<Rightarrow> error + Reader" where
  "Reader_Backup t r =
     (case buf r of
        Some b \<Rightarrow> Inl CannotBackupMoreThanOneToken
      | None \<Rightarrow> Inr (r\<lparr>buf := Some t\<rparr>))"



definition PosInfo :: "Reader \<Rightarrow> string \<times> (error + int) \<times> (error + int)" where
  "PosInfo r = (Name (lex r), LineNumber (lex r), ColumnNumber (lex r))"

text \<open>
  \<open>Run\<close> calls the state functions in turn and closes the channel when one returns nil;
  \<open>Drain\<close> receives until the channel is closed. A state function is Go code that calls
  the scanner's methods, so what the state functions of one run do to the scanner is a
  sequence of these calls, the type \<open>op\<close> below.
\<close>

definition close :: "Chan \<Rightarrow> error + Chan" where
  "close c = (if closed c then Inl CloseOfClosedChannel else Inr (c\<lparr>closed := True\<rparr>))"

definition Drain :: "Lexer \<Rightarrow> Lexer option" where
  "Drain l =
     (if closed (tokens l) then Some (l\<lparr>tokens := (tokens l)\<lparr>queue := []\<rparr>\<rparr>) else None)"

section \<open>Sequences of scanner operations\<close>

datatype op =
    OpNext
  | OpPeek
  | OpBackup
  | OpEmit Type
  | OpIgnore
  | OpInc int
  | OpDec int
  | OpConsume string
  | OpAccept string
  | OpAcceptRun string
  | OpAcceptFunc "rune \<Rightarrow> bool"
  | OpAcceptFuncRun "rune \<Rightarrow> bool"
  | OpAcceptBut string
  | OpAcceptButRun string
  | OpErrorf string

fun discard :: "error + 'a \<times> Lexer \<Rightarrow> error + Lexer" where
  "discard (Inl e) = Inl e"
| "discard (Inr (v, l)) = Inr l"

text \<open>One call: \<open>None\<close> when it does not return, \<open>Some (Inl e)\<close> when it panics.\<close>

fun step :: "op \<Rightarrow> Lexer \<Rightarrow> (error + Lexer) option" where
  "step OpNext l = Some (discard (Next l))"
| "step OpPeek l = Some (discard (Peek l))"
| "step OpBackup l = Some (Inr (Backup l))"
| "step (OpEmit t) l = Some (Emit t l)"
| "step OpIgnore l = Some (Inr (Ignore l))"
| "step (OpInc n) l = Some (Inr (Inc n l))"
| "step (OpDec n) l = Some (Inr (Dec n l))"
| "step (OpConsume s) l = Some (discard (Consume s l))"
| "step (OpAccept valid) l = Some (discard (Accept valid l))"
| "step (OpAcceptRun valid) l = map_option discard (AcceptRun valid l)"
| "step (OpAcceptFunc f) l = Some (discard (AcceptFunc f l))"
| "step (OpAcceptFuncRun f) l = map_option discard (AcceptFuncRun f l)"
| "step (OpAcceptBut invalid) l = Some (discard (AcceptBut invalid l))"
| "step (OpAcceptButRun invalid) l = map_option discard (AcceptButRun invalid l)"
| "step (OpErrorf msg) l = Some (Errorf msg l)"

fun run :: "op list \<Rightarrow> Lexer \<Rightarrow> (error + Lexer) option" where
  "run [] l = Some (Inr l)"
| "run (x # xs) l =
     (case step x l of
        None \<Rightarrow> None
      | Some (Inl e) \<Rightarrow> Some (Inl e)
      | Some (Inr l') \<Rightarrow> run xs l')"

definition Run :: "op list \<Rightarrow> Lexer \<Rightarrow> (error + Lexer) option" where
  "Run ops l =
     (case run ops l of
        None \<Rightarrow> None
      | Some (Inl e) \<Rightarrow> Some (Inl e)
      | Some (Inr l') \<Rightarrow>
          (case close (tokens l') of
             Inl e \<Rightarrow> Some (Inl e)
           | Inr c \<Rightarrow> Some (Inr (l'\<lparr>tokens := c\<rparr>))))"

text \<open>
  Consistent use of \<open>next\<close>, \<open>backup\<close>, \<open>emit\<close> and \<open>ignore\<close>: no other operation, and
  each \<open>backup\<close> directly after a \<open>next\<close>. The flag says whether a \<open>backup\<close> may come now.
\<close>

fun consistent_from :: "bool \<Rightarrow> op list \<Rightarrow> bool" where
  "consistent_from b [] = True"
| "consistent_from b (OpNext # xs) = consistent_from True xs"
| "consistent_from b (OpBackup # xs) = (b \<and> consistent_from False xs)"
| "consistent_from b (OpEmit t # xs) = consistent_from False xs"
| "consistent_from b (OpIgnore # xs) = consistent_from False xs"
| "consistent_from b (x # xs) = False"

definition consistent :: "op list \<Rightarrow> bool" where
  "consistent xs = consistent_from False xs"

text \<open>
  The spans \<open>[tokenStart, cursor)\<close> that the \<open>ignore\<close> calls of a run discard, in order;
  the text of \<open>s[lo:hi]\<close> outside a list of spans; the span of a token; the number of
  spans of a list that hold an offset.
\<close>

fun ignored_spans :: "op list \<Rightarrow> Lexer \<Rightarrow> (int \<times> int) list" where
  "ignored_spans [] l = []"
| "ignored_spans (x # xs) l =
     (case x of OpIgnore \<Rightarrow> [(base l, pos l)] | _ \<Rightarrow> [])
     @ (case step x l of Some (Inr l') \<Rightarrow> ignored_spans xs l' | _ \<Rightarrow> [])"

definition covered :: "(int \<times> int) list \<Rightarrow> int \<Rightarrow> bool" where
  "covered spans i \<longleftrightarrow> (\<exists>(a, b) \<in> set spans. a \<le> i \<and> i < b)"

definition without_spans :: "(int \<times> int) list \<Rightarrow> string \<Rightarrow> nat \<Rightarrow> nat \<Rightarrow> string" where
  "without_spans spans s lo hi =
     map (\<lambda>i. s ! i) (filter (\<lambda>i. \<not> covered spans (int i)) [lo..<hi])"

definition token_span :: "Token \<Rightarrow> int \<times> int" where
  "token_span t = (Pos t, Pos t + int (length (Value t)))"

definition cover_count :: "(int \<times> int) list \<Rightarrow> int \<Rightarrow> nat" where
  "cover_count spans i = length (filter (\<lambda>(a, b). a \<le> i \<and> i < b) spans)"

definition emitted :: "Lexer \<Rightarrow> Token list" where
  "emitted l = queue (tokens l)"



text \<open>Every \<open>ignore\<close> of the run is called with the cursor at or after \<open>tokenStart\<close>.\<close>

fun ignores_forward :: "op list \<Rightarrow> Lexer \<Rightarrow> bool" where
  "ignores_forward [] l = True"
| "ignores_forward (x # xs) l =
     ((case x of OpIgnore \<Rightarrow> base l \<le> pos l | _ \<Rightarrow> True)
      \<and> (case step x l of Some (Inr l') \<Rightarrow> ignores_forward xs l' | _ \<Rightarrow> True))"

section \<open>What a reader will deliver\<close>

text \<open>
  The tokens a reader holds: the buffered one, then those waiting in the channel; and its
  next \<open>n\<close> tokens: \<open>None\<close> when fewer wait in an open channel (the \<open>n\<close>-th read blocks),
  zero tokens after the end of a closed one.
\<close>

definition pending :: "Reader \<Rightarrow> Token list" where
  "pending r =
     (case buf r of None \<Rightarrow> [] | Some t \<Rightarrow> [t]) @ queue (tokens (lex r))"

definition next_tokens :: "Reader \<Rightarrow> nat \<Rightarrow> Token list option" where
  "next_tokens r n =
     (if n \<le> length (pending r) then Some (take n (pending r))
      else if closed (tokens (lex r))
        then Some (pending r @ replicate (n - length (pending r)) zeroToken)
      else None)"



section \<open>Notions used to state the properties of a run\<close>


text \<open>
  The invariant of the specification's data model, \<open>0 \<le> tokenStart \<le> cursor \<le>
  length(input)\<close>, on an open channel; with the flag, which holds directly after a
  \<open>next\<close>, the recorded width is that of the unit just read, so that one \<open>backup\<close> keeps
  the cursor at or after tokenStart.
\<close>

definition cursor_ok :: "Lexer \<Rightarrow> bool \<Rightarrow> bool" where
  "cursor_ok l b \<longleftrightarrow>
     0 \<le> base l \<and> base l \<le> pos l \<and> pos l \<le> int (length (input l))
     \<and> \<not> closed (tokens l)
     \<and> (b \<longrightarrow> 0 \<le> width l \<and> base l \<le> pos l - width l)"

text \<open>
  The tokens \<open>toks\<close> and the ignored spans \<open>spans\<close> tile \<open>inp[lo:hi]\<close>: the values of the
  tokens, in order, are the text of \<open>inp[lo:hi]\<close> outside the spans; each token's value is
  the text of the input at the token's span, which lies in \<open>[lo, hi)\<close>; each ignored span
  lies in \<open>[lo, hi)\<close>; and each offset of \<open>[lo, hi)\<close> is held by exactly one token span or
  ignored span.
\<close>

definition tiled :: "string \<Rightarrow> int \<Rightarrow> int \<Rightarrow> Token list \<Rightarrow> (int \<times> int) list \<Rightarrow> bool" where
  "tiled inp lo hi toks spans \<longleftrightarrow>
     concat (map Value toks) = without_spans spans inp (nat lo) (nat hi)
     \<and> (\<forall>t \<in> set toks. lo \<le> Pos t \<and> Pos t + int (length (Value t)) \<le> hi
           \<and> slice inp (Pos t) (Pos t + int (length (Value t))) = Inr (Value t))
     \<and> (\<forall>(a, b) \<in> set spans. lo \<le> a \<and> a \<le> b \<and> b \<le> hi)
     \<and> (\<forall>i. lo \<le> i \<and> i < hi \<longrightarrow> cover_count (map token_span toks @ spans) i = 1)"

section \<open>Facts about the library functions\<close>

lemma IndexRune_EOF: "IndexRune s EOF = -1"
  by (simp add: IndexRune_def EOF_def RuneError_def ValidRune_def)

lemma byte_nonneg: "0 \<le> byte c"
  unfolding byte_def by (metis of_nat_of_char of_nat_0_le_iff)

lemma Decode_width:
  "s \<noteq> [] \<Longrightarrow>
     1 \<le> snd (DecodeRuneInString s) \<and> snd (DecodeRuneInString s) \<le> int (length s)"
  by (cases s) (auto simp: Let_def split: list.split)

lemma Decode_rune_nonneg: "0 \<le> fst (DecodeRuneInString s)"
  by (cases s) (auto simp: Let_def RuneError_def byte_nonneg split: list.split)

section \<open>The scanner's cursor\<close>

lemma Next_at_end:
  "int (length (input l)) \<le> pos l \<Longrightarrow> Next l = Inr (EOF, l\<lparr>width := 0\<rparr>)"
  by (simp add: Next_def)

lemma Next_width:
  assumes "Next l = Inr (r, l')" and "0 \<le> pos l" and "pos l < int (length (input l))"
  shows "1 \<le> width l' \<and> l' = l\<lparr>width := width l', pos := pos l + width l'\<rparr>
         \<and> pos l + width l' \<le> int (length (input l)) \<and> 0 \<le> r"
proof -
  let ?rest = "drop (nat (pos l)) (input l)"
  have ne: "?rest \<noteq> []"
    using assms(2,3) by simp
  have sl: "slice_from (input l) (pos l) = Inr ?rest"
    using assms(2,3) by (simp add: slice_from_def slice_def)
  obtain r0 w where d: "DecodeRuneInString ?rest = (r0, w)"
    by (cases "DecodeRuneInString ?rest")
  from Decode_width [OF ne] d have w: "1 \<le> w" "w \<le> int (length ?rest)"
    by simp_all
  from Decode_rune_nonneg [of ?rest] d have "0 \<le> r0"
    by simp
  moreover from assms sl d have "r = r0" "l' = l\<lparr>width := w, pos := pos l + w\<rparr>"
    by (simp_all add: Next_def)
  ultimately show ?thesis
    using w assms(2,3) by simp
qed



text \<open>
  Claim C7. \<open>Peek\<close> panics exactly where \<open>Next\<close> does; where \<open>Next\<close> returns a rune (or
  \<open>EOF\<close>) and a state, \<open>Peek\<close> returns the same rune and that state after \<open>Backup\<close>,
  which is the state before the call except for the recorded width: the cursor is
  unchanged.
\<close>

theorem Peek_is_Next_then_Backup:
  "(\<forall>e. Next l = Inl e \<longrightarrow> Peek l = Inl e) \<and>
   (\<forall>r l'. Next l = Inr (r, l') \<longrightarrow>
      Peek l = Inr (r, Backup l') \<and> Backup l' = l\<lparr>width := width l'\<rparr>
      \<and> pos (Backup l') = pos l)"
  by (auto simp: Peek_def Next_def Backup_def Let_def split: if_splits sum.splits prod.splits)

theorem Peek_is_Next_then_Backup_witness:
  "Next (New ''f'' ''ab'') = Inr (97, (New ''f'' ''ab'')\<lparr>width := 1, pos := 1\<rparr>) \<and>
   Peek (New ''f'' ''ab'') = Inr (97, (New ''f'' ''ab'')\<lparr>width := 1\<rparr>) \<and>
   Next ((New ''f'' ''ab'')\<lparr>pos := 2\<rparr>) = Inr (EOF, (New ''f'' ''ab'')\<lparr>pos := 2\<rparr>) \<and>
   Peek ((New ''f'' ''ab'')\<lparr>pos := 2\<rparr>) = Inr (EOF, (New ''f'' ''ab'')\<lparr>pos := 2\<rparr>) \<and>
   Next ((New ''f'' ''ab'')\<lparr>pos := - 1\<rparr>) = Inl SliceBoundsOutOfRange \<and>
   Peek ((New ''f'' ''ab'')\<lparr>pos := - 1\<rparr>) = Inl SliceBoundsOutOfRange"
  using Peek_is_Next_then_Backup [of "New ''f'' ''ab''"]
    Peek_is_Next_then_Backup [of "(New ''f'' ''ab'')\<lparr>pos := 2\<rparr>"]
    Peek_is_Next_then_Backup [of "(New ''f'' ''ab'')\<lparr>pos := - 1\<rparr>"]
  by (simp add: Next_def New_def slice_from_def slice_def byte_def Backup_def)

text \<open>
  Claim C10. With the cursor at or past the end of the input, \<open>AcceptBut\<close> returns
  \<open>true\<close> for every excluded set and leaves the scanner as it was but for the recorded
  width, now 0: the cursor is unchanged and no rune was consumed.
\<close>

theorem AcceptBut_at_end:
  "int (length (input l)) \<le> pos l \<Longrightarrow> AcceptBut invalid l = Inr (True, l\<lparr>width := 0\<rparr>)"
  by (simp add: AcceptBut_def Next_at_end IndexRune_EOF)

theorem AcceptBut_at_end_witness:
  "int (length (input ((New ''f'' ''ab'')\<lparr>pos := 2\<rparr>))) \<le> pos ((New ''f'' ''ab'')\<lparr>pos := 2\<rparr>) \<and>
   AcceptBut ''ab'' ((New ''f'' ''ab'')\<lparr>pos := 2\<rparr>) = Inr (True, (New ''f'' ''ab'')\<lparr>pos := 2\<rparr>)"
  using AcceptBut_at_end [of "(New ''f'' ''ab'')\<lparr>pos := 2\<rparr>" "''ab''"]
  by (simp add: New_def)

text \<open>
  Claim C2, as the code has it. \<open>Backup\<close> has no failure path: it always returns,
  with the recorded width subtracted from the cursor and the width left as it was. A
  second consecutive \<open>Backup\<close> therefore subtracts the same width again; after a \<open>Next\<close>
  that read a rune, the first \<open>Backup\<close> restores the cursor and the second leaves it
  strictly before that place. On a new scanner (no \<open>Next\<close> yet, width 0) \<open>Backup\<close>
  leaves the cursor at 0.
\<close>

theorem Backup_never_fails:
  "step OpBackup l = Some (Inr (l\<lparr>pos := pos l - width l\<rparr>)) \<and>
   width (Backup l) = width l \<and>
   pos (Backup (Backup l)) = pos l - 2 * width l \<and>
   pos (Backup (New nm inp)) = 0 \<and>
   (\<forall>r l'. 0 \<le> pos l \<and> pos l < int (length (input l)) \<and> Next l = Inr (r, l') \<longrightarrow>
      pos (Backup l') = pos l \<and> pos (Backup (Backup l')) < pos l)"
proof -
  have "pos (Backup l') = pos l \<and> pos (Backup (Backup l')) < pos l"
    if "0 \<le> pos l" "pos l < int (length (input l))" "Next l = Inr (r, l')" for r l'
  proof -
    from Next_width [OF that(3) that(1) that(2)]
    have "1 \<le> width l'" and "pos l' = pos l + width l'"
      by (simp, metis Lexer.select_convs(5) Lexer.surjective Lexer.update_convs(3,5))
    then show ?thesis
      by (simp add: Backup_def)
  qed
  moreover have "step OpBackup l = Some (Inr (l\<lparr>pos := pos l - width l\<rparr>))"
    "width (Backup l) = width l"
    "pos (Backup (Backup l)) = pos l - 2 * width l" "pos (Backup (New nm inp)) = 0"
    by (simp_all add: Backup_def New_def)
  ultimately show ?thesis
    by blast
qed

theorem Backup_never_fails_witness:
  "0 \<le> pos (New ''f'' ''ab'') \<and>
   pos (New ''f'' ''ab'') < int (length (input (New ''f'' ''ab''))) \<and>
   Next (New ''f'' ''ab'') = Inr (97, (New ''f'' ''ab'')\<lparr>width := 1, pos := 1\<rparr>) \<and>
   pos (Backup ((New ''f'' ''ab'')\<lparr>width := 1, pos := 1\<rparr>)) = 0 \<and>
   pos (Backup (Backup ((New ''f'' ''ab'')\<lparr>width := 1, pos := 1\<rparr>))) < 0"
  using Backup_never_fails [of "New ''f'' ''ab''" "''f''" "''ab''"]
  by (simp add: Next_def New_def slice_from_def slice_def byte_def)

text \<open>
  Claim C2 as stated fails: on the input \<open>ab\<close>, after one \<open>Next\<close>, the first \<open>Backup\<close>
  returns with the cursor at 0 and the second returns as well, with the cursor at -1; a
  \<open>Backup\<close> with no \<open>Next\<close> before it returns too.
\<close>

theorem Backup_twice_counterexample:
  "Next (New ''f'' ''ab'') = Inr (97, (New ''f'' ''ab'')\<lparr>width := 1, pos := 1\<rparr>) \<and>
   step OpBackup ((New ''f'' ''ab'')\<lparr>width := 1, pos := 1\<rparr>)
     = Some (Inr ((New ''f'' ''ab'')\<lparr>width := 1, pos := 0\<rparr>)) \<and>
   step OpBackup ((New ''f'' ''ab'')\<lparr>width := 1, pos := 0\<rparr>)
     = Some (Inr ((New ''f'' ''ab'')\<lparr>width := 1, pos := - 1\<rparr>)) \<and>
   step OpBackup (New ''f'' ''ab'') = Some (Inr (New ''f'' ''ab''))"
  by (simp add: Next_def New_def slice_from_def slice_def byte_def Backup_def)

section \<open>Line and column\<close>




section \<open>The lookahead reader\<close>






lemma Reader_Peek_blocks:
  "Reader_Peek r = None \<longleftrightarrow> next_tokens r (Suc 0) = None"
  by (auto simp: Reader_Peek_def NextToken_def recv_def next_tokens_def pending_def
      split: option.splits list.splits if_splits)

lemma Reader_Peek_buffers:
  assumes "Reader_Peek r = Some (t, r1)"
  shows "Reader_Peek r1 = Some (t, r1)" and "buf r1 = Some t"
    and "(buf r = Some t \<and> r1 = r) \<or> (buf r = None \<and> NextToken (lex r) = Some (t, lex r1))"
    and "Reader_Next r1 = Some (t, r1\<lparr>buf := None\<rparr>)"
  using assms
  by (auto simp: Reader_Peek_def Reader_Next_def split: option.splits)

lemma Reader_Peek_keeps_stream:
  assumes "Reader_Peek r = Some (t, r1)"
  shows "next_tokens r1 n = next_tokens r n"
proof (cases "buf r")
  case (Some b)
  with assms show ?thesis
    by (simp add: Reader_Peek_def)
next
  case None
  show ?thesis
  proof (cases "queue (tokens (lex r))")
    case (Cons a as)
    with None assms have "pending r1 = pending r"
      and "closed (tokens (lex r1)) = closed (tokens (lex r))"
      by (auto simp: Reader_Peek_def NextToken_def recv_def pending_def)
    then show ?thesis
      by (simp add: next_tokens_def)
  next
    case Nil
    with None assms have c: "closed (tokens (lex r))" and t: "t = zeroToken"
      and r1: "r1 = r\<lparr>lex := (lex r)\<lparr>tokens := tokens (lex r), lastPos := Pos t\<rparr>,
                      buf := Some t\<rparr>"
      by (auto simp: Reader_Peek_def NextToken_def recv_def split: if_splits)
    show ?thesis
    proof (cases n)
      case 0
      then show ?thesis
        by (simp add: next_tokens_def)
    next
      case (Suc m)
      with Nil None c t r1 show ?thesis
        by (simp add: next_tokens_def pending_def)
    qed
  qed
qed

text \<open>
  Claim C8. \<open>Peek\<close> on the reader blocks only when no token is buffered and none waits in
  an open channel. When it returns a token \<open>t\<close> and the reader \<open>r1\<close>: a second \<open>Peek\<close>
  returns \<open>t\<close> again and leaves \<open>r1\<close> as it is, so it pulls nothing; the first \<open>Peek\<close>
  either found \<open>t\<close> buffered and changed nothing, or pulled exactly \<open>t\<close> with one
  \<open>NextToken\<close>; \<open>t\<close> is buffered in \<open>r1\<close>; the tokens the reader will deliver are the
  same before and after; and \<open>Next\<close> then returns \<open>t\<close> and empties the buffer.
\<close>

theorem Reader_Peek_idempotent:
  "(Reader_Peek r = None \<longleftrightarrow> next_tokens r 1 = None) \<and>
   (\<forall>t r1. Reader_Peek r = Some (t, r1) \<longrightarrow>
       Reader_Peek r1 = Some (t, r1) \<and> buf r1 = Some t \<and>
       ((buf r = Some t \<and> r1 = r) \<or> (buf r = None \<and> NextToken (lex r) = Some (t, lex r1))) \<and>
       (\<forall>n. next_tokens r1 n = next_tokens r n) \<and>
       Reader_Next r1 = Some (t, r1\<lparr>buf := None\<rparr>))"
proof (intro conjI allI impI)
  show "Reader_Peek r = None \<longleftrightarrow> next_tokens r 1 = None"
    using Reader_Peek_blocks [of r] by simp
next
  fix t r1
  assume p: "Reader_Peek r = Some (t, r1)"
  show "Reader_Peek r1 = Some (t, r1)"
    by (rule Reader_Peek_buffers(1) [OF p])
  show "buf r1 = Some t"
    by (rule Reader_Peek_buffers(2) [OF p])
  show "(buf r = Some t \<and> r1 = r) \<or> (buf r = None \<and> NextToken (lex r) = Some (t, lex r1))"
    by (rule Reader_Peek_buffers(3) [OF p])
  show "Reader_Next r1 = Some (t, r1\<lparr>buf := None\<rparr>)"
    by (rule Reader_Peek_buffers(4) [OF p])
  show "next_tokens r1 n = next_tokens r n" for n
    by (rule Reader_Peek_keeps_stream [OF p])
qed

theorem Reader_Peek_idempotent_witness:
  "Reader_Peek (NewReader ((New ''f'' ''ab'')\<lparr>tokens :=
       \<lparr>queue = [\<lparr>Type = 2, Pos = 0, Value = ''a''\<rparr>, \<lparr>Type = 3, Pos = 1, Value = ''b''\<rparr>],
        closed = False\<rparr>\<rparr>))
     = Some (\<lparr>Type = 2, Pos = 0, Value = ''a''\<rparr>,
         \<lparr>lex = (New ''f'' ''ab'')\<lparr>tokens :=
            \<lparr>queue = [\<lparr>Type = 3, Pos = 1, Value = ''b''\<rparr>], closed = False\<rparr>\<rparr>,
          buf = Some \<lparr>Type = 2, Pos = 0, Value = ''a''\<rparr>\<rparr>) \<and>
   Reader_Peek \<lparr>lex = (New ''f'' ''ab'')\<lparr>tokens :=
            \<lparr>queue = [\<lparr>Type = 3, Pos = 1, Value = ''b''\<rparr>], closed = False\<rparr>\<rparr>,
          buf = Some \<lparr>Type = 2, Pos = 0, Value = ''a''\<rparr>\<rparr>
     = Some (\<lparr>Type = 2, Pos = 0, Value = ''a''\<rparr>,
         \<lparr>lex = (New ''f'' ''ab'')\<lparr>tokens :=
            \<lparr>queue = [\<lparr>Type = 3, Pos = 1, Value = ''b''\<rparr>], closed = False\<rparr>\<rparr>,
          buf = Some \<lparr>Type = 2, Pos = 0, Value = ''a''\<rparr>\<rparr>) \<and>
   Reader_Next \<lparr>lex = (New ''f'' ''ab'')\<lparr>tokens :=
            \<lparr>queue = [\<lparr>Type = 3, Pos = 1, Value = ''b''\<rparr>], closed = False\<rparr>\<rparr>,
          buf = Some \<lparr>Type = 2, Pos = 0, Value = ''a''\<rparr>\<rparr>
     = Some (\<lparr>Type = 2, Pos = 0, Value = ''a''\<rparr>,
         \<lparr>lex = (New ''f'' ''ab'')\<lparr>tokens :=
            \<lparr>queue = [\<lparr>Type = 3, Pos = 1, Value = ''b''\<rparr>], closed = False\<rparr>\<rparr>,
          buf = None\<rparr>)"
  using Reader_Peek_idempotent [of "NewReader ((New ''f'' ''ab'')\<lparr>tokens :=
       \<lparr>queue = [\<lparr>Type = 2, Pos = 0, Value = ''a''\<rparr>, \<lparr>Type = 3, Pos = 1, Value = ''b''\<rparr>],
        closed = False\<rparr>\<rparr>)"]
  by (simp add: Reader_Peek_def NewReader_def NextToken_def recv_def New_def)











section \<open>The run loops at the end of the input\<close>

lemma AcceptRun_at_end:
  "int (length (input l)) \<le> pos l \<Longrightarrow> AcceptRun valid l = Some (Inr (0, l\<lparr>width := 0\<rparr>))"
  by (simp add: AcceptRun_def AcceptRun_loop.simps [of valid 0 l] Next_at_end IndexRune_EOF
      after_loop_def Backup_def)

lemma AcceptButRun_loop_returns:
  assumes ret: "AcceptButRun_loop invalid n l = Some y"
  shows "pos l < int (length (input l))"
proof (rule AcceptButRun_loop.raw_induct
    [where P = "\<lambda>invalid n l y. pos l < int (length (input l))", OF _ ret], goal_cases)
  case (1 loop invalid n l y)
  note IH = "1"(1) and eq = "1"(2)
  show ?case
  proof (rule ccontr)
    assume "\<not> pos l < int (length (input l))"
    then have at_end: "int (length (input l)) \<le> pos l"
      by simp
    with eq have "loop invalid (n + 0) (l\<lparr>width := 0\<rparr>) = Some y"
      by (simp add: Next_at_end IndexRune_EOF)
    from IH [OF this] at_end show False
      by simp
  qed
qed

text \<open>
  Claim C3, on the code. With the cursor at or past the end of the input the loop of
  \<open>AcceptButRun\<close> never exits, for any excluded set: \<open>Next\<close> returns \<open>EOF\<close> with width 0,
  \<open>EOF\<close> is not in the excluded set, and the loop calls \<open>Next\<close> again from the same
  state. \<open>AcceptButRun\<close> does not return.
\<close>

theorem AcceptButRun_diverges_at_end:
  "int (length (input l)) \<le> pos l \<Longrightarrow> AcceptButRun invalid l = None"
proof -
  assume at_end: "int (length (input l)) \<le> pos l"
  have "AcceptButRun_loop invalid 0 l = None"
  proof (cases "AcceptButRun_loop invalid 0 l")
    case (Some y)
    from AcceptButRun_loop_returns [OF this] at_end show ?thesis
      by simp
  qed simp
  then show ?thesis
    by (simp add: AcceptButRun_def after_loop_def)
qed

theorem AcceptButRun_diverges_at_end_witness:
  "int (length (input (New ''f'' ''''))) \<le> pos (New ''f'' '''') \<and>
   AcceptButRun ''x'' (New ''f'' '''') = None"
  using AcceptButRun_diverges_at_end [of "New ''f'' ''''" "''x''"]
  by (simp add: New_def)

text \<open>
  The same from the start of the input \<open>ab\<close> with the excluded set \<open>x\<close>: the loop consumes
  \<open>a\<close> and \<open>b\<close>, reaches the end and stays there; the sibling \<open>AcceptRun\<close> returns there.
\<close>

lemma AcceptButRun_diverges_example:
  "AcceptButRun ''x'' (New ''f'' ''ab'') = None"
proof -
  have "AcceptButRun_loop ''x'' 0 (New ''f'' ''ab'')
          = AcceptButRun_loop ''x'' 1 ((New ''f'' ''ab'')\<lparr>width := 1, pos := 1\<rparr>)"
    by (subst AcceptButRun_loop.simps)
      (simp add: Next_def New_def slice_from_def slice_def byte_def IndexRune_def
        IndexByte_def char_of_def)
  also have "\<dots> = AcceptButRun_loop ''x'' 2 ((New ''f'' ''ab'')\<lparr>width := 1, pos := 2\<rparr>)"
    by (subst AcceptButRun_loop.simps)
      (simp add: Next_def New_def slice_from_def slice_def byte_def IndexRune_def
        IndexByte_def char_of_def)
  also have "\<dots> = None"
  proof (cases "AcceptButRun_loop ''x'' 2 ((New ''f'' ''ab'')\<lparr>width := 1, pos := 2\<rparr>)")
    case (Some y)
    from AcceptButRun_loop_returns [OF this] show ?thesis
      by (simp add: New_def)
  qed simp
  finally show ?thesis
    by (simp add: AcceptButRun_def after_loop_def)
qed

lemma AcceptRun_returns_example:
  "AcceptRun ''ab'' (New ''f'' ''ab'')
     = Some (Inr (2, (New ''f'' ''ab'')\<lparr>width := 0, pos := 2\<rparr>))"
proof -
  have "AcceptRun_loop ''ab'' 0 (New ''f'' ''ab'')
          = AcceptRun_loop ''ab'' 1 ((New ''f'' ''ab'')\<lparr>width := 1, pos := 1\<rparr>)"
    by (subst AcceptRun_loop.simps)
      (simp add: Next_def New_def slice_from_def slice_def byte_def IndexRune_def
        IndexByte_def char_of_def)
  also have "\<dots> = AcceptRun_loop ''ab'' 2 ((New ''f'' ''ab'')\<lparr>width := 1, pos := 2\<rparr>)"
    by (subst AcceptRun_loop.simps)
      (simp add: Next_def New_def slice_from_def slice_def byte_def IndexRune_def
        IndexByte_def char_of_def)
  also have "\<dots> = Some (Inr (2, (New ''f'' ''ab'')\<lparr>width := 0, pos := 2\<rparr>))"
    by (subst AcceptRun_loop.simps)
      (simp add: Next_def New_def IndexRune_EOF)
  finally show ?thesis
    by (simp add: AcceptRun_def after_loop_def Backup_def New_def)
qed

subsection \<open>What \<open>AcceptButRun\<close> computes\<close>

lemma runes_Nil: "runes [] = []"
  by (simp add: runes.simps)

lemma runes_Cons:
  "s \<noteq> [] \<Longrightarrow>
     runes s = DecodeRuneInString s # runes (drop (nat (snd (DecodeRuneInString s))) s)"
  by (subst runes.simps) simp

lemma Next_decodes:
  assumes "0 \<le> pos l" and "pos l < int (length (input l))"
  shows "Next l = Inr (fst (DecodeRuneInString (drop (nat (pos l)) (input l))),
           l\<lparr>width := snd (DecodeRuneInString (drop (nat (pos l)) (input l))),
             pos := pos l + snd (DecodeRuneInString (drop (nat (pos l)) (input l)))\<rparr>)"
  using assms by (simp add: Next_def slice_from_def slice_def split_def Let_def)

text \<open>
  With the cursor inside the input or at its end, the loop of \<open>AcceptButRun\<close> returns if
  and only if some rune from the cursor on is in the excluded set; it then returns the
  summed widths of the runes before the first such rune, with the cursor after that rune
  and its width recorded.
\<close>

lemma AcceptButRun_loop_characterised:
  assumes "rest = drop (nat (pos l)) (input l)" and "0 \<le> pos l"
    and "pos l \<le> int (length (input l))"
  shows "AcceptButRun_loop invalid n l =
     (case dropWhile (\<lambda>(r, w). IndexRune invalid r < 0) (runes rest) of
        [] \<Rightarrow> None
      | (r, w) # _ \<Rightarrow>
          Some (Inr (n + sum_list (map snd (takeWhile (\<lambda>(r, w). IndexRune invalid r < 0)
                                              (runes rest))),
                     l\<lparr>width := w,
                       pos := pos l + sum_list (map snd (takeWhile
                                (\<lambda>(r, w). IndexRune invalid r < 0) (runes rest))) + w\<rparr>)))"
  using assms
proof (induction rest arbitrary: l n rule: runes.induct)
  case (1 s)
  show ?case
  proof (cases "s = []")
    case True
    with "1.prems" have at_end: "int (length (input l)) \<le> pos l"
      by simp
    have "AcceptButRun_loop invalid n l = None"
    proof (cases "AcceptButRun_loop invalid n l")
      case (Some y)
      from AcceptButRun_loop_returns [OF this] at_end show ?thesis
        by simp
    qed simp
    with True show ?thesis
      by (simp add: runes_Nil)
  next
    case False
    let ?d = "DecodeRuneInString s"
    let ?l1 = "l\<lparr>width := snd ?d, pos := pos l + snd ?d\<rparr>"
    from False "1.prems" have inside: "pos l < int (length (input l))"
      by auto
    have nx: "Next l = Inr (fst ?d, ?l1)"
      using Next_decodes [OF "1.prems"(2) inside] "1.prems"(1) by simp
    from Decode_width [OF False]
    have w: "1 \<le> snd ?d" "snd ?d \<le> int (length s)"
      by simp_all
    have lens: "int (length s) = int (length (input l)) - pos l"
      using "1.prems" by simp
    have rs: "runes s = ?d # runes (drop (nat (snd ?d)) s)"
      by (rule runes_Cons [OF False])
    show ?thesis
    proof (cases "IndexRune invalid (fst ?d) < 0")
      case ok: True
      have rest1: "drop (nat (snd ?d)) s = drop (nat (pos ?l1)) (input ?l1)"
        using "1.prems" w by (simp add: nat_add_distrib add.commute)
      from lens w "1.prems"(2) have p1: "0 \<le> pos ?l1" "pos ?l1 \<le> int (length (input ?l1))"
        by simp_all
      have unroll: "AcceptButRun_loop invalid n l = AcceptButRun_loop invalid (n + snd ?d) ?l1"
        by (subst AcceptButRun_loop.simps) (simp add: nx ok)
      have dw: "dropWhile (\<lambda>(r, w). IndexRune invalid r < 0) (runes s)
                  = dropWhile (\<lambda>(r, w). IndexRune invalid r < 0) (runes (drop (nat (snd ?d)) s))"
        and tw: "takeWhile (\<lambda>(r, w). IndexRune invalid r < 0) (runes s)
                  = ?d # takeWhile (\<lambda>(r, w). IndexRune invalid r < 0)
                          (runes (drop (nat (snd ?d)) s))"
        using ok by (simp_all add: rs split_def)
      show ?thesis
      proof (cases "dropWhile (\<lambda>(r, w). IndexRune invalid r < 0)
                      (runes (drop (nat (snd ?d)) s))")
        case Nil
        with "1.IH" [OF False rest1 p1, of "n + snd ?d"] unroll
        have "AcceptButRun_loop invalid n l = None"
          by simp
        then show ?thesis
          unfolding dw Nil by simp
      next
        case (Cons p ps)
        obtain r w where p: "p = (r, w)"
          by (cases p)
        from Cons p "1.IH" [OF False rest1 p1, of "n + snd ?d"] unroll
        have "AcceptButRun_loop invalid n l =
                Some (Inr (n + snd ?d + sum_list (map snd (takeWhile
                             (\<lambda>(r, w). IndexRune invalid r < 0)
                             (runes (drop (nat (snd ?d)) s)))),
                  ?l1\<lparr>width := w,
                      pos := pos ?l1 + sum_list (map snd (takeWhile
                             (\<lambda>(r, w). IndexRune invalid r < 0)
                             (runes (drop (nat (snd ?d)) s)))) + w\<rparr>))"
          by simp
        with Cons p show ?thesis
          unfolding dw tw by (simp add: add.assoc)
      qed
    next
      case stop: False
      have "AcceptButRun_loop invalid n l = Some (Inr (n, ?l1))"
        by (subst AcceptButRun_loop.simps) (simp add: nx stop)
      with stop rs show ?thesis
        by (cases ?d) auto
    qed
  qed
qed

lemma AcceptButRun_characterised:
  assumes "0 \<le> pos l" and "pos l \<le> int (length (input l))"
  shows "AcceptButRun invalid l =
     (case dropWhile (\<lambda>(r, w). IndexRune invalid r < 0)
             (runes (drop (nat (pos l)) (input l))) of
        [] \<Rightarrow> None
      | (r, w) # _ \<Rightarrow>
          Some (Inr (sum_list (map snd (takeWhile (\<lambda>(r, w). IndexRune invalid r < 0)
                                          (runes (drop (nat (pos l)) (input l))))),
                     l\<lparr>width := w,
                       pos := pos l + sum_list (map snd (takeWhile
                                (\<lambda>(r, w). IndexRune invalid r < 0)
                                (runes (drop (nat (pos l)) (input l)))))\<rparr>)))"
proof (cases "dropWhile (\<lambda>(r, w). IndexRune invalid r < 0)
                (runes (drop (nat (pos l)) (input l)))")
  case Nil
  with AcceptButRun_loop_characterised [OF refl assms, of invalid 0] show ?thesis
    by (simp only: AcceptButRun_def after_loop_def list.case option.case)
next
  case (Cons p ps)
  obtain r w where p: "p = (r, w)"
    by (cases p)
  from Cons p AcceptButRun_loop_characterised [OF refl assms, of invalid 0] show ?thesis
    by (simp only: AcceptButRun_def after_loop_def list.case option.case sum.case
        prod.case Backup_def)
      simp
qed

section \<open>Emitted tokens and ignored spans tile the scanned input\<close>

lemma upt_split: "lo \<le> mid \<Longrightarrow> mid \<le> hi \<Longrightarrow> [lo..<hi] = [lo..<mid] @ [mid..<hi]"
  using upt_add_eq_append [of lo mid "hi - mid"] by simp

lemma without_spans_split:
  "lo \<le> mid \<Longrightarrow> mid \<le> hi \<Longrightarrow>
     without_spans sp s lo hi = without_spans sp s lo mid @ without_spans sp s mid hi"
  by (simp add: without_spans_def upt_split [of lo mid hi])

lemma map_nth_upt: "hi \<le> length s \<Longrightarrow> map (\<lambda>i. s ! i) [lo..<hi] = take (hi - lo) (drop lo s)"
  by (rule nth_equalityI) auto

lemma without_spans_uncovered:
  assumes "\<forall>i. lo \<le> i \<and> i < hi \<longrightarrow> \<not> covered sp (int i)" and "hi \<le> length s"
  shows "without_spans sp s lo hi = take (hi - lo) (drop lo s)"
proof -
  have "filter (\<lambda>i. \<not> covered sp (int i)) [lo..<hi] = [lo..<hi]"
    using assms(1) by (simp add: filter_id_conv)
  then show ?thesis
    using map_nth_upt [OF assms(2)] by (simp add: without_spans_def)
qed

lemma without_spans_covered:
  assumes "\<forall>i. lo \<le> i \<and> i < hi \<longrightarrow> covered sp (int i)"
  shows "without_spans sp s lo hi = []"
  using assms by (simp add: without_spans_def filter_empty_conv)

lemma without_spans_cong:
  assumes "\<forall>i. lo \<le> i \<and> i < hi \<longrightarrow> covered sp (int i) = covered sp' (int i)"
  shows "without_spans sp s lo hi = without_spans sp' s lo hi"
proof -
  have "filter (\<lambda>i. \<not> covered sp (int i)) [lo..<hi]
          = filter (\<lambda>i. \<not> covered sp' (int i)) [lo..<hi]"
    using assms by (intro filter_cong) auto
  then show ?thesis
    by (simp add: without_spans_def)
qed

lemma cover_count_append:
  "cover_count (xs @ ys) i = cover_count xs i + cover_count ys i"
  by (simp add: cover_count_def)

lemma cover_count_Cons:
  "cover_count ((a, b) # xs) i = (if a \<le> i \<and> i < b then 1 else 0) + cover_count xs i"
  by (simp add: cover_count_def)

lemma cover_count_outside:
  assumes "\<forall>(a, b) \<in> set xs. i < a \<or> b \<le> i"
  shows "cover_count xs i = 0"
  using assms by (auto simp: cover_count_def filter_empty_conv)

lemma covered_outside:
  assumes "\<forall>(a, b) \<in> set xs. i < a \<or> b \<le> i"
  shows "\<not> covered xs i"
  using assms by (auto simp: covered_def)

lemma tiled_empty: "tiled inp lo lo [] []"
  by (simp add: tiled_def without_spans_def)

lemma tiled_emit:
  assumes lo: "0 \<le> lo" "lo \<le> mid" and hi: "mid \<le> hi" "hi \<le> int (length inp)"
    and rest: "tiled inp mid hi toks spans"
  shows "tiled inp lo hi
           (\<lparr>Type = t, Pos = lo, Value = take (nat (mid - lo)) (drop (nat lo) inp)\<rparr> # toks)
           spans"
proof -
  let ?v = "take (nat (mid - lo)) (drop (nat lo) inp)"
  let ?tk = "\<lparr>Type = t, Pos = lo, Value = ?v\<rparr>"
  from rest have
    cat: "concat (map Value toks) = without_spans spans inp (nat mid) (nat hi)"
    and tok: "\<forall>u \<in> set toks. mid \<le> Pos u \<and> Pos u + int (length (Value u)) \<le> hi
                \<and> slice inp (Pos u) (Pos u + int (length (Value u))) = Inr (Value u)"
    and sp: "\<forall>(a, b) \<in> set spans. mid \<le> a \<and> a \<le> b \<and> b \<le> hi"
    and cnt: "\<forall>i. mid \<le> i \<and> i < hi \<longrightarrow> cover_count (map token_span toks @ spans) i = 1"
    by (simp_all add: tiled_def)
  have lenv: "int (length ?v) = mid - lo"
    using lo hi by simp
  have "\<forall>i. nat lo \<le> i \<and> i < nat mid \<longrightarrow> \<not> covered spans (int i)"
    using sp lo by (auto simp: covered_def)
  then have "without_spans spans inp (nat lo) (nat mid) = take (nat mid - nat lo) (drop (nat lo) inp)"
    using hi lo by (intro without_spans_uncovered) auto
  also have "\<dots> = ?v"
    using lo by (simp add: nat_diff_distrib)
  finally have "without_spans spans inp (nat lo) (nat hi) = ?v @ concat (map Value toks)"
    using cat lo hi without_spans_split [of "nat lo" "nat mid" "nat hi" spans inp] by simp
  then have 1: "concat (map Value (?tk # toks)) = without_spans spans inp (nat lo) (nat hi)"
    by simp
  have 2: "\<forall>u \<in> set (?tk # toks). lo \<le> Pos u \<and> Pos u + int (length (Value u)) \<le> hi
              \<and> slice inp (Pos u) (Pos u + int (length (Value u))) = Inr (Value u)"
  proof -
    have "slice inp lo (lo + int (length ?v)) = Inr ?v"
      using lo hi by (simp add: slice_def)
    moreover have "lo + int (length ?v) \<le> hi"
      using lenv hi by simp
    ultimately show ?thesis
      using tok lo(2) by auto
  qed
  have 3: "\<forall>(a, b) \<in> set spans. lo \<le> a \<and> a \<le> b \<and> b \<le> hi"
    using sp lo by auto
  have 4: "cover_count (map token_span (?tk # toks) @ spans) i = 1" if i: "lo \<le> i" "i < hi" for i
  proof (cases "i < mid")
    case True
    have "\<forall>(a, b) \<in> set (map token_span toks @ spans). i < a \<or> b \<le> i"
      using tok sp True by (auto simp: token_span_def)
    from cover_count_outside [OF this] True i lenv show ?thesis
      by (simp add: token_span_def cover_count_Cons)
  next
    case False
    with cnt i have "cover_count (map token_span toks @ spans) i = 1"
      by simp
    with False lenv show ?thesis
      by (simp add: token_span_def cover_count_Cons)
  qed
  from 1 2 3 4 show ?thesis
    unfolding tiled_def by blast
qed

lemma tiled_ignore:
  assumes lo: "0 \<le> lo" "lo \<le> mid" and hi: "mid \<le> hi"
    and rest: "tiled inp mid hi toks spans"
  shows "tiled inp lo hi toks ((lo, mid) # spans)"
proof -
  from rest have
    cat: "concat (map Value toks) = without_spans spans inp (nat mid) (nat hi)"
    and tok: "\<forall>u \<in> set toks. mid \<le> Pos u \<and> Pos u + int (length (Value u)) \<le> hi
                \<and> slice inp (Pos u) (Pos u + int (length (Value u))) = Inr (Value u)"
    and sp: "\<forall>(a, b) \<in> set spans. mid \<le> a \<and> a \<le> b \<and> b \<le> hi"
    and cnt: "\<forall>i. mid \<le> i \<and> i < hi \<longrightarrow> cover_count (map token_span toks @ spans) i = 1"
    by (simp_all add: tiled_def)
  have "\<forall>i. nat lo \<le> i \<and> i < nat mid \<longrightarrow> covered ((lo, mid) # spans) (int i)"
    using lo by (auto simp: covered_def)
  then have a: "without_spans ((lo, mid) # spans) inp (nat lo) (nat mid) = []"
    by (rule without_spans_covered)
  have "\<forall>i. nat mid \<le> i \<and> i < nat hi \<longrightarrow>
          covered ((lo, mid) # spans) (int i) = covered spans (int i)"
    using lo by (auto simp: covered_def)
  then have b: "without_spans ((lo, mid) # spans) inp (nat mid) (nat hi)
                  = without_spans spans inp (nat mid) (nat hi)"
    by (rule without_spans_cong)
  have 1: "concat (map Value toks) = without_spans ((lo, mid) # spans) inp (nat lo) (nat hi)"
    using a b cat lo hi
      without_spans_split [of "nat lo" "nat mid" "nat hi" "(lo, mid) # spans" inp]
    by simp
  have 2: "\<forall>u \<in> set toks. lo \<le> Pos u \<and> Pos u + int (length (Value u)) \<le> hi
              \<and> slice inp (Pos u) (Pos u + int (length (Value u))) = Inr (Value u)"
    using tok lo by auto
  have 3: "\<forall>(a, b) \<in> set ((lo, mid) # spans). lo \<le> a \<and> a \<le> b \<and> b \<le> hi"
    using sp lo hi by auto
  have 4: "cover_count (map token_span toks @ (lo, mid) # spans) i = 1"
    if i: "lo \<le> i" "i < hi" for i
  proof (cases "i < mid")
    case True
    have "\<forall>(a, b) \<in> set (map token_span toks @ spans). i < a \<or> b \<le> i"
      using tok sp True by (auto simp: token_span_def)
    from cover_count_outside [OF this] True i show ?thesis
      by (simp add: cover_count_append cover_count_Cons)
  next
    case False
    with cnt i have "cover_count (map token_span toks @ spans) i = 1"
      by simp
    with False show ?thesis
      by (simp add: cover_count_append cover_count_Cons)
  qed
  from 1 2 3 4 show ?thesis
    unfolding tiled_def by blast
qed

lemma Next_returns:
  assumes "0 \<le> pos l"
  shows "\<exists>r l1. Next l = Inr (r, l1) \<and> input l1 = input l \<and> base l1 = base l
           \<and> tokens l1 = tokens l \<and> 0 \<le> width l1 \<and> pos l1 - width l1 = pos l
           \<and> (pos l \<le> int (length (input l)) \<longrightarrow> pos l1 \<le> int (length (input l)))"
proof (cases "int (length (input l)) \<le> pos l")
  case True
  then show ?thesis
    by (simp add: Next_at_end)
next
  case False
  let ?d = "DecodeRuneInString (drop (nat (pos l)) (input l))"
  have nx: "Next l = Inr (fst ?d, l\<lparr>width := snd ?d, pos := pos l + snd ?d\<rparr>)"
    using False assms by (simp add: Next_def slice_from_def slice_def split_def Let_def)
  from Next_width [OF nx assms] False
  have "1 \<le> snd ?d" and "pos l + snd ?d \<le> int (length (input l))"
    by simp_all
  with nx show ?thesis
    by simp
qed

lemma consistent_run:
  "consistent_from b xs \<Longrightarrow> cursor_ok l b \<Longrightarrow>
     \<exists>l' new. run xs l = Some (Inr l') \<and> cursor_ok l' False \<and> input l' = input l
       \<and> base l \<le> base l' \<and> emitted l' = emitted l @ new
       \<and> tiled (input l) (base l) (base l') new (ignored_spans xs l)
       \<and> ignores_forward xs l"
proof (induction xs arbitrary: l b)
  case Nil
  then show ?case
    by (simp add: cursor_ok_def tiled_empty)
next
  case (Cons x xs)
  note ok = Cons.prems(2)
  show ?case
  proof (cases x)
    case OpNext
    from ok have "0 \<le> pos l"
      by (simp add: cursor_ok_def)
    from Next_returns [OF this] obtain r l1 where
      nx: "Next l = Inr (r, l1)" and same: "input l1 = input l" "base l1 = base l"
        "tokens l1 = tokens l"
      and w: "0 \<le> width l1" "pos l1 - width l1 = pos l"
        "pos l \<le> int (length (input l)) \<longrightarrow> pos l1 \<le> int (length (input l))"
      by blast
    have ok1: "cursor_ok l1 True"
      using ok same w by (simp add: cursor_ok_def)
    from Cons.prems(1) OpNext have "consistent_from True xs"
      by simp
    from Cons.IH [OF this ok1] nx same OpNext show ?thesis
      by (simp add: emitted_def)
  next
    case OpBackup
    with Cons.prems(1) have b: "b" and rest: "consistent_from False xs"
      by simp_all
    have ok1: "cursor_ok (Backup l) False"
      using ok b by (simp add: cursor_ok_def Backup_def)
    from Cons.IH [OF rest ok1] OpBackup show ?thesis
      by (simp add: emitted_def Backup_def)
  next
    case (OpEmit t)
    with Cons.prems(1) have rest: "consistent_from False xs"
      by simp
    let ?v = "take (nat (pos l - base l)) (drop (nat (base l)) (input l))"
    let ?tk = "\<lparr>Type = t, Pos = base l, Value = ?v\<rparr>"
    let ?l1 = "l\<lparr>tokens := (tokens l)\<lparr>queue := queue (tokens l) @ [?tk]\<rparr>, base := pos l\<rparr>"
    have em: "Emit t l = Inr ?l1"
      using ok by (simp add: Emit_def slice_def send_def cursor_ok_def)
    have ok1: "cursor_ok ?l1 False"
      using ok by (simp add: cursor_ok_def)
    from Cons.IH [OF rest ok1] obtain l' new where
      run: "run xs ?l1 = Some (Inr l')" and ok': "cursor_ok l' False"
      and inp: "input l' = input l" and le: "pos l \<le> base l'"
      and out: "emitted l' = emitted l @ ?tk # new"
      and til: "tiled (input l) (pos l) (base l') new (ignored_spans xs ?l1)"
      and fwd: "ignores_forward xs ?l1"
      by (auto simp: emitted_def)
    have "tiled (input l) (base l) (base l') (?tk # new) (ignored_spans xs ?l1)"
      using ok ok' inp le til by (intro tiled_emit) (simp_all add: cursor_ok_def)
    with run ok' inp le out fwd em OpEmit ok show ?thesis
      by (simp add: cursor_ok_def)
  next
    case OpIgnore
    with Cons.prems(1) have rest: "consistent_from False xs"
      by simp
    let ?l1 = "l\<lparr>base := pos l\<rparr>"
    have ok1: "cursor_ok ?l1 False"
      using ok by (simp add: cursor_ok_def)
    from Cons.IH [OF rest ok1] obtain l' new where
      run: "run xs ?l1 = Some (Inr l')" and ok': "cursor_ok l' False"
      and inp: "input l' = input l" and le: "pos l \<le> base l'"
      and out: "emitted l' = emitted l @ new"
      and til: "tiled (input l) (pos l) (base l') new (ignored_spans xs ?l1)"
      and fwd: "ignores_forward xs ?l1"
      by (auto simp: emitted_def)
    have "tiled (input l) (base l) (base l') new ((base l, pos l) # ignored_spans xs ?l1)"
      using ok le til by (intro tiled_ignore) (simp_all add: cursor_ok_def)
    with run ok' inp le out fwd OpIgnore ok show ?thesis
      by (simp add: cursor_ok_def Ignore_def)
  qed (use Cons.prems(1) in simp_all)
qed




section \<open>Positions of emitted tokens\<close>










lemma consistent_ignores_forward:
  "consistent xs \<Longrightarrow> ignores_forward xs (New nm inp)"
  using consistent_run [of False xs "New nm inp"]
  by (auto simp: consistent_def cursor_ok_def New_def make_chan_def)




end
